theory Spec2Isabelle
  imports Main "HOL-Library.Word"
begin

unbundle bit_operations_syntax

section \<open>The machine the diagnostic runs on\<close>

text \<open>
  The target is a 32-bit Cortex-M: \<open>uint32_t\<close>, \<open>size_t\<close> and every pointer are 32 bits
  wide. A pointer value is a \<open>32 word\<close> (NULL is 0). A location reached by pointer
  arithmetic is its byte address as an integer: C pointer arithmetic inside an object is
  exact, so \<open>pLocation++\<close> on a \<open>uint32_t *\<close> adds 4 and never wraps, and the teardown
  cursor of \<open>checkHeapSize\<close> can step one slot below its block.

  \<open>malloc\<close> and \<open>free\<close> belong to the C library and the RAM is the hardware under test,
  so both are parameters: an allocator with a state of its own, and a memory device with
  \<open>load\<close> and \<open>store\<close>, which need not return what was stored. Every access of the
  program is a whole 32-bit word, named by the address of its first byte; the device
  keeps one cell per such address.
\<close>

type_synonym u32 = "32 word"
type_synonym addr = int

record ('h, 'm) env =
  malloc :: "'h \<Rightarrow> u32 \<Rightarrow> u32 \<times> 'h"
  free :: "'h \<Rightarrow> u32 \<Rightarrow> 'h"
  load :: "'m \<Rightarrow> addr \<Rightarrow> u32"
  store :: "'m \<Rightarrow> addr \<Rightarrow> u32 \<Rightarrow> 'm"

text \<open>
  Everything the functions do to the outside is recorded in order: calls of the allocator,
  accesses through a \<open>uint32_t *\<close> (\<open>Store\<close>, \<open>Load\<close>), accesses through the
  \<open>void **\<close> slot cursor (\<open>StorePtr\<close>, \<open>LoadPtr\<close>) and the two \<open>printf\<close> lines of
  \<open>checkRam\<close> with their arguments.
\<close>

datatype event =
    Malloc u32 u32
  | Free u32
  | Store addr u32
  | Load addr u32
  | StorePtr addr u32
  | LoadPtr addr u32
  | PrintChecking u32 u32
  | PrintFailure u32 u32

record ('h, 'm) world =
  heap :: 'h
  ram :: 'm
  trace :: "event list"

definition SYSTEM_RAM_SIZE_BYTES :: u32 where
  "SYSTEM_RAM_SIZE_BYTES = 20480"

definition emit :: "event \<Rightarrow> ('h, 'm) world \<Rightarrow> ('h, 'm) world" where
  "emit e w = w\<lparr>trace := trace w @ [e]\<rparr>"

definition call_malloc :: "('h, 'm) env \<Rightarrow> u32 \<Rightarrow> ('h, 'm) world \<Rightarrow> u32 \<times> ('h, 'm) world" where
  "call_malloc E n w =
     (case malloc E (heap w) n of (p, h') \<Rightarrow> (p, emit (Malloc n p) (w\<lparr>heap := h'\<rparr>)))"

definition call_free :: "('h, 'm) env \<Rightarrow> u32 \<Rightarrow> ('h, 'm) world \<Rightarrow> ('h, 'm) world" where
  "call_free E p w = emit (Free p) (w\<lparr>heap := free E (heap w) p\<rparr>)"

definition poke :: "('h, 'm) env \<Rightarrow> addr \<Rightarrow> u32 \<Rightarrow> ('h, 'm) world \<Rightarrow> ('h, 'm) world" where
  "poke E a v w = emit (Store a v) (w\<lparr>ram := store E (ram w) a v\<rparr>)"

definition peek :: "('h, 'm) env \<Rightarrow> addr \<Rightarrow> ('h, 'm) world \<Rightarrow> u32 \<times> ('h, 'm) world" where
  "peek E a w = (load E (ram w) a, emit (Load a (load E (ram w) a)) w)"

definition pokePtr :: "('h, 'm) env \<Rightarrow> addr \<Rightarrow> u32 \<Rightarrow> ('h, 'm) world \<Rightarrow> ('h, 'm) world" where
  "pokePtr E a v w = emit (StorePtr a v) (w\<lparr>ram := store E (ram w) a v\<rparr>)"

definition peekPtr :: "('h, 'm) env \<Rightarrow> addr \<Rightarrow> ('h, 'm) world \<Rightarrow> u32 \<times> ('h, 'm) world" where
  "peekPtr E a w = (load E (ram w) a, emit (LoadPtr a (load E (ram w) a)) w)"

section \<open>mallocLargestSize\<close>

text \<open>
  The loop of \<open>mallocLargestSize\<close>. \<open>memorySizeBytes\<close> is an \<open>int32_t\<close>; it is only ever
  decremented by 4 while positive, so it stays above \<open>-4\<close> and is an integer here.
\<close>

function malloc_loop ::
  "('h, 'm) env \<Rightarrow> u32 \<Rightarrow> int \<Rightarrow> ('h, 'm) world \<Rightarrow> u32 \<times> int \<times> ('h, 'm) world" where
  "malloc_loop E pMem memorySizeBytes w =
     (if pMem = 0 \<and> memorySizeBytes > 0 then
        (case call_malloc E (word_of_int memorySizeBytes) w of
           (p, w') \<Rightarrow>
             malloc_loop E p (if p = 0 then memorySizeBytes - 4 else memorySizeBytes) w')
      else (pMem, memorySizeBytes, w))"
  by pat_completeness auto
termination
  by (relation "measure (\<lambda>(E, pMem, m, w). if pMem = 0 \<and> m > 0 then nat m + 1 else 0)") auto

declare malloc_loop.simps [simp del]

text \<open>
  \<open>pSizeBytes\<close> is an in-out parameter: \<open>None\<close> is the NULL pointer, \<open>Some n\<close> a pointer to
  a \<open>size_t\<close> holding \<open>n\<close>. The result is the returned block, the updated \<open>*pSizeBytes\<close>
  and the world. The cast \<open>(int32_t) *pSizeBytes\<close> is \<open>sint\<close>.
\<close>

definition mallocLargestSize ::
  "('h, 'm) env \<Rightarrow> u32 option \<Rightarrow> ('h, 'm) world \<Rightarrow> u32 \<times> u32 option \<times> ('h, 'm) world" where
  "mallocLargestSize E pSizeBytes w =
     (case pSizeBytes of
        None \<Rightarrow> (0, None, w)
      | Some n \<Rightarrow>
          (case malloc_loop E 0 (sint n) w of
             (pMem, memorySizeBytes, w') \<Rightarrow>
               (pMem, Some (word_of_int (if memorySizeBytes < 0 then 0 else memorySizeBytes)), w')))"

section \<open>checkRam\<close>

text \<open>The step of the walking pattern: shift left, and start again at 1 on overflow.\<close>

definition next_value :: "u32 \<Rightarrow> u32" where
  "next_value v = (if push_bit 1 v = 0 then 1 else push_bit 1 v)"

function write_walking ::
  "('h, 'm) env \<Rightarrow> addr \<Rightarrow> addr \<Rightarrow> u32 \<Rightarrow> ('h, 'm) world \<Rightarrow> addr \<times> u32 \<times> ('h, 'm) world" where
  "write_walking E lim pLocation v w =
     (if pLocation < lim then
        write_walking E lim (pLocation + 4) (next_value v) (poke E pLocation v w)
      else (pLocation, v, w))"
  by pat_completeness auto
termination
  by (relation "measure (\<lambda>(E, lim, pLocation, v, w). nat (lim - pLocation))") auto

text \<open>The first read pass: it takes no memory, only the cursor and the pattern.\<close>

function read_walking :: "addr \<Rightarrow> addr \<Rightarrow> u32 \<Rightarrow> addr \<times> u32" where
  "read_walking lim pLocation v =
     (if pLocation < lim then read_walking lim (pLocation + 4) (next_value v)
      else (pLocation, v))"
  by pat_completeness auto
termination
  by (relation "measure (\<lambda>(lim, pLocation, v). nat (lim - pLocation))") auto

function write_inverted ::
  "('h, 'm) env \<Rightarrow> addr \<Rightarrow> addr \<Rightarrow> u32 \<Rightarrow> ('h, 'm) world \<Rightarrow> addr \<times> u32 \<times> ('h, 'm) world" where
  "write_inverted E lim pLocation v w =
     (if pLocation < lim then
        write_inverted E lim (pLocation + 4) (next_value v) (poke E pLocation (NOT v) w)
      else (pLocation, v, w))"
  by pat_completeness auto
termination
  by (relation "measure (\<lambda>(E, lim, pLocation, v, w). nat (lim - pLocation))") auto

function read_inverted ::
  "('h, 'm) env \<Rightarrow> addr \<Rightarrow> addr \<Rightarrow> u32 \<Rightarrow> ('h, 'm) world \<Rightarrow> addr \<times> u32 \<times> ('h, 'm) world" where
  "read_inverted E lim pLocation v w =
     (if pLocation < lim then
        (case peek E pLocation w of
           (x, w') \<Rightarrow>
             if x = NOT v then read_inverted E lim (pLocation + 4) (next_value v) w'
             else (pLocation, v, w'))
      else (pLocation, v, w))"
  by pat_completeness auto
termination
  by (relation "measure (\<lambda>(E, lim, pLocation, v, w). nat (lim - pLocation))") auto

declare write_walking.simps [simp del] read_walking.simps [simp del]
  write_inverted.simps [simp del] read_inverted.simps [simp del]

text \<open>
  \<open>checkRam_run\<close> is the body of \<open>checkRam\<close> and also gives the final value of the local
  \<open>pLocation\<close> (NULL, address 0, when \<open>pMem\<close> is NULL); \<open>checkRam\<close> itself returns nothing.
  \<open>ram_limit\<close> is \<open>pMem + memorySizeBytes / sizeof (uint32_t)\<close> as a location.
\<close>

definition ram_limit :: "u32 \<Rightarrow> u32 \<Rightarrow> addr" where
  "ram_limit pMem memorySizeBytes = uint pMem + 4 * (uint memorySizeBytes div 4)"

definition checkRam_run ::
  "('h, 'm) env \<Rightarrow> u32 \<Rightarrow> u32 \<Rightarrow> ('h, 'm) world \<Rightarrow> addr \<times> ('h, 'm) world" where
  "checkRam_run E pMem memorySizeBytes w =
     (if pMem \<noteq> 0 then
        (let lim = ram_limit pMem memorySizeBytes;
             w1 = emit (PrintChecking pMem (pMem + memorySizeBytes div 4)) w;
             (l1, v1, w2) = write_walking E lim (uint pMem) 1 w1;
             (l2, v2) = read_walking lim (uint pMem) 1;
             (l3, w3) =
               (if l2 \<ge> lim then
                  (let (l', v', w') = write_inverted E lim (uint pMem) 1 w2;
                       (l'', v'', w'') = read_inverted E lim (uint pMem) 1 w'
                   in (l'', w''))
                else (l2, w2))
         in if l3 < lim then
              (case peek E l3 w3 of
                 (x, w4) \<Rightarrow> (l3, emit (PrintFailure (word_of_int l3) x) w4))
            else (l3, w3))
      else (0, w))"

definition checkRam :: "('h, 'm) env \<Rightarrow> u32 \<Rightarrow> u32 \<Rightarrow> ('h, 'm) world \<Rightarrow> ('h, 'm) world" where
  "checkRam E pMem memorySizeBytes w = snd (checkRam_run E pMem memorySizeBytes w)"

section \<open>checkHeapSize\<close>

text \<open>
  The end of the slot array overlaid on the first block:
  \<open>(void **) pFirstMalloc + firstMallocSizeBytes / sizeof (void **)\<close>, a pointer being 4 bytes.
\<close>

definition slot_limit :: "u32 \<Rightarrow> u32 \<Rightarrow> addr" where
  "slot_limit pFirstMalloc firstMallocSizeBytes =
     uint pFirstMalloc + 4 * (uint firstMallocSizeBytes div 4)"

text \<open>
  The chaining loop. The guard reads the slot under the cursor only when the cursor is
  inside the slot array (\<open>&&\<close> is evaluated left to right); the body stores the result of
  \<open>mallocLargestSize\<close> into the slot and then reads the slot again, for the test and for
  the argument of \<open>checkRam\<close>.
\<close>

function chain_loop ::
  "('h, 'm) env \<Rightarrow> u32 \<Rightarrow> u32 \<Rightarrow> addr \<Rightarrow> u32 \<Rightarrow> u32 \<Rightarrow> ('h, 'm) world
     \<Rightarrow> addr \<times> u32 \<times> u32 \<times> ('h, 'm) world" where
  "chain_loop E pFirstMalloc firstMallocSizeBytes ppLaterMalloc laterMallocSizeBytes
       totalHeapSizeBytes w =
     (if ppLaterMalloc < slot_limit pFirstMalloc firstMallocSizeBytes then
        (case peekPtr E ppLaterMalloc w of
           (g, w0) \<Rightarrow>
             if g \<noteq> 0 \<and> laterMallocSizeBytes \<noteq> 0 then
               (case mallocLargestSize E (Some laterMallocSizeBytes) w0 of
                  (p, sz, w1) \<Rightarrow>
                    (let later' = (case sz of Some n \<Rightarrow> n | None \<Rightarrow> laterMallocSizeBytes) in
                     case peekPtr E ppLaterMalloc (pokePtr E ppLaterMalloc p w1) of
                       (r, w2) \<Rightarrow>
                         if r \<noteq> 0 then
                           (case peekPtr E ppLaterMalloc w2 of
                              (q, w3) \<Rightarrow>
                                chain_loop E pFirstMalloc firstMallocSizeBytes (ppLaterMalloc + 4)
                                  SYSTEM_RAM_SIZE_BYTES (totalHeapSizeBytes + later')
                                  (checkRam E q later' w3))
                         else
                           chain_loop E pFirstMalloc firstMallocSizeBytes ppLaterMalloc
                             later' totalHeapSizeBytes w2))
             else (ppLaterMalloc, laterMallocSizeBytes, totalHeapSizeBytes, w0))
      else (ppLaterMalloc, laterMallocSizeBytes, totalHeapSizeBytes, w))"
  by pat_completeness auto
termination
  apply (relation "measure (\<lambda>(E, pFirst, first, pp, later, tot, w).
           if pp < slot_limit pFirst first
           then 2 * nat (slot_limit pFirst first - pp)
                + (if load E (ram w) pp \<noteq> 0 \<and> later \<noteq> 0 then 1 else 0)
           else 0)")
    apply simp
   apply (auto simp: peekPtr_def pokePtr_def emit_def split: if_splits)
  done

text \<open>The teardown loop: \<open>while (ppLaterMalloc >= pFirstMalloc)\<close>.\<close>

function free_loop ::
  "('h, 'm) env \<Rightarrow> u32 \<Rightarrow> addr \<Rightarrow> ('h, 'm) world \<Rightarrow> addr \<times> ('h, 'm) world" where
  "free_loop E pFirstMalloc ppLaterMalloc w =
     (if ppLaterMalloc \<ge> uint pFirstMalloc then
        (case peekPtr E ppLaterMalloc w of
           (p, w') \<Rightarrow> free_loop E pFirstMalloc (ppLaterMalloc - 4) (call_free E p w'))
      else (ppLaterMalloc, w))"
  by pat_completeness auto
termination
  by (relation "measure (\<lambda>(E, pFirst, pp, w). nat (pp - uint pFirst + 1))") auto

declare chain_loop.simps [simp del] free_loop.simps [simp del]

definition checkHeapSize ::
  "('h, 'm) env \<Rightarrow> u32 \<Rightarrow> ('h, 'm) world \<Rightarrow> u32 \<times> ('h, 'm) world" where
  "checkHeapSize E sizeBytes w =
     (case mallocLargestSize E (Some sizeBytes) w of
        (pFirstMalloc, sz, w1) \<Rightarrow>
          (let firstMallocSizeBytes = (case sz of Some n \<Rightarrow> n | None \<Rightarrow> sizeBytes) in
           if pFirstMalloc \<noteq> 0 then
             (let w2 = checkRam E pFirstMalloc firstMallocSizeBytes w1 in
              case chain_loop E pFirstMalloc firstMallocSizeBytes (uint pFirstMalloc)
                     SYSTEM_RAM_SIZE_BYTES (0 + firstMallocSizeBytes) w2 of
                (pp, later, tot, w3) \<Rightarrow>
                  (case free_loop E pFirstMalloc pp w3 of
                     (pp', w4) \<Rightarrow> (tot, call_free E pFirstMalloc w4)))
           else (0, w1)))"

section \<open>Vocabulary of the properties\<close>

subsection \<open>The walking pattern and what \<open>checkRam\<close> leaves behind\<close>

text \<open>The pattern for word \<open>i\<close> of a range: 1 shifted left by \<open>i mod 32\<close>.\<close>

definition walk :: "nat \<Rightarrow> u32" where
  "walk i = push_bit (i mod 32) 1"

text \<open>\<open>memorySizeBytes / sizeof (uint32_t)\<close>: the number of whole words in a range.\<close>

definition word_count :: "u32 \<Rightarrow> nat" where
  "word_count memorySizeBytes = unat memorySizeBytes div 4"

text \<open>
  Storing \<open>f i\<close> into word \<open>i\<close> of the range at \<open>b\<close>, for the indices \<open>js\<close> in order: the
  memory afterwards, the \<open>Store\<close> events, and the \<open>Load\<close> events of reading the same words.
\<close>

definition fill :: "('h, 'm) env \<Rightarrow> (nat \<Rightarrow> u32) \<Rightarrow> addr \<Rightarrow> nat list \<Rightarrow> 'm \<Rightarrow> 'm" where
  "fill E f b js m = fold (\<lambda>i m'. store E m' (b + 4 * int i) (f i)) js m"

definition stores :: "(nat \<Rightarrow> u32) \<Rightarrow> addr \<Rightarrow> nat list \<Rightarrow> event list" where
  "stores f b js = map (\<lambda>i. Store (b + 4 * int i) (f i)) js"

definition loads :: "('h, 'm) env \<Rightarrow> 'm \<Rightarrow> addr \<Rightarrow> nat list \<Rightarrow> event list" where
  "loads E m b js = map (\<lambda>i. Load (b + 4 * int i) (load E m (b + 4 * int i))) js"

text \<open>The memory after both write passes over \<open>n\<close> words at \<open>b\<close>.\<close>

definition tested_ram :: "('h, 'm) env \<Rightarrow> addr \<Rightarrow> nat \<Rightarrow> 'm \<Rightarrow> 'm" where
  "tested_ram E b n m = fill E (\<lambda>i. NOT (walk i)) b [0..<n] (fill E walk b [0..<n] m)"

text \<open>
  The index of the first word from \<open>k\<close> on that does not read as the complement of its
  pattern, or \<open>n\<close> when every word does.
\<close>

definition stop_from :: "('h, 'm) env \<Rightarrow> 'm \<Rightarrow> addr \<Rightarrow> nat \<Rightarrow> nat \<Rightarrow> nat" where
  "stop_from E m b k n =
     k + length (takeWhile (\<lambda>i. load E m (b + 4 * int i) = NOT (walk i)) [k..<n])"

definition stop_index :: "('h, 'm) env \<Rightarrow> 'm \<Rightarrow> addr \<Rightarrow> nat \<Rightarrow> nat" where
  "stop_index E m b n = stop_from E m b 0 n"

text \<open>Everything one call of \<open>checkRam\<close> with a non-null \<open>pMem\<close> does, in order.\<close>

definition checkRam_events :: "('h, 'm) env \<Rightarrow> u32 \<Rightarrow> u32 \<Rightarrow> 'm \<Rightarrow> event list" where
  "checkRam_events E pMem memorySizeBytes m =
     (let b = uint pMem; n = word_count memorySizeBytes;
          M = tested_ram E b n m; j = stop_index E M b n
      in PrintChecking pMem (pMem + memorySizeBytes div 4)
         # stores walk b [0..<n] @ stores (\<lambda>i. NOT (walk i)) b [0..<n]
         @ loads E M b [0..<min n (Suc j)]
         @ (if j < n
            then [Load (b + 4 * int j) (load E M (b + 4 * int j)),
                  PrintFailure (word_of_int (b + 4 * int j)) (load E M (b + 4 * int j))]
            else []))"

subsection \<open>Reading a trace\<close>

definition is_print :: "event \<Rightarrow> bool" where
  "is_print e = (case e of PrintChecking a b \<Rightarrow> True | PrintFailure a b \<Rightarrow> True | _ \<Rightarrow> False)"

definition printed :: "event list \<Rightarrow> event list" where
  "printed evs = filter is_print evs"

text \<open>A 32-bit store at \<open>a\<close> writes the four bytes \<open>a\<close> to \<open>a + 3\<close>.\<close>

definition writes_byte :: "event \<Rightarrow> addr \<Rightarrow> bool" where
  "writes_byte e x =
     (case e of Store a v \<Rightarrow> a \<le> x \<and> x < a + 4 | StorePtr a v \<Rightarrow> a \<le> x \<and> x < a + 4
      | _ \<Rightarrow> False)"

definition byte_written :: "event list \<Rightarrow> addr \<Rightarrow> bool" where
  "byte_written evs x = list_ex (\<lambda>e. writes_byte e x) evs"

subsection \<open>Memory devices\<close>




subsection \<open>The slot array and the allocator\<close>

text \<open>
  An access through the slot cursor is in bounds, for a first block at \<open>b\<close> with \<open>n\<close>
  pointer-sized slots, when it is at a slot of index below \<open>n\<close> for a store and of index
  at most \<open>n\<close> for a load. Other events are not accesses through the cursor.
\<close>

definition slot_ok :: "addr \<Rightarrow> nat \<Rightarrow> event \<Rightarrow> bool" where
  "slot_ok b n e =
     (case e of
        StorePtr a v \<Rightarrow> b \<le> a \<and> (a - b) mod 4 = 0 \<and> (a - b) div 4 < int n
      | LoadPtr a v \<Rightarrow> b \<le> a \<and> (a - b) mod 4 = 0 \<and> (a - b) div 4 \<le> int n
      | _ \<Rightarrow> True)"


text \<open>
  The pointers passed to \<open>free\<close>, and the non-null pointers returned by \<open>malloc\<close>, in the
  order of the calls.
\<close>

definition freed :: "event list \<Rightarrow> u32 list" where
  "freed evs = concat (map (\<lambda>e. case e of Free p \<Rightarrow> [p] | _ \<Rightarrow> []) evs)"

definition allocated :: "event list \<Rightarrow> u32 list" where
  "allocated evs =
     concat (map (\<lambda>e. case e of Malloc n p \<Rightarrow> (if p = 0 then [] else [p]) | _ \<Rightarrow> []) evs)"



subsection \<open>A test bench\<close>

text \<open>
  A concrete machine to run the functions on: an allocator that places each block after
  the highest live one inside \<open>cap\<close> bytes from \<open>ARENA_BASE\<close>, and a RAM that is either
  fault-free or has one word stuck at zero.
\<close>

type_synonym arena = "(addr \<times> addr) list"

definition ARENA_BASE :: addr where
  "ARENA_BASE = 0x20000000"

definition arena_malloc :: "int \<Rightarrow> arena \<Rightarrow> u32 \<Rightarrow> u32 \<times> arena" where
  "arena_malloc cap h n =
     (let start = Max (insert ARENA_BASE (snd ` set h)) in
      if n \<noteq> 0 \<and> start + uint n \<le> ARENA_BASE + cap
      then (word_of_int start, (start, start + uint n) # h)
      else (0, h))"

definition arena_free :: "arena \<Rightarrow> u32 \<Rightarrow> arena" where
  "arena_free h p = filter (\<lambda>(lo, hi). lo \<noteq> uint p) h"

definition good_load :: "(addr \<Rightarrow> u32) \<Rightarrow> addr \<Rightarrow> u32" where
  "good_load m a = m a"

definition good_store :: "(addr \<Rightarrow> u32) \<Rightarrow> addr \<Rightarrow> u32 \<Rightarrow> (addr \<Rightarrow> u32)" where
  "good_store m a v = m(a := v)"


definition bench :: "int \<Rightarrow> (arena, addr \<Rightarrow> u32) env" where
  "bench cap = \<lparr>malloc = arena_malloc cap, free = arena_free, load = good_load, store = good_store\<rparr>"


definition blank :: "addr \<Rightarrow> u32" where
  "blank a = 0"

definition world0 :: "(arena, addr \<Rightarrow> u32) world" where
  "world0 = \<lparr>heap = [], ram = blank, trace = []\<rparr>"

section \<open>Properties of the loops of \<open>checkRam\<close>\<close>

lemma walk_pow: "walk i = 2 ^ (i mod 32)"
  by (simp add: walk_def)

lemma push_bit_pow_u32: "push_bit 1 ((2::u32) ^ k) = 2 ^ Suc k"
  by (simp add: push_bit_eq_mult)

lemma next_value_walk: "next_value (walk i) = walk (Suc i)"
proof (cases "i mod 32 = 31")
  case True
  then have "Suc i mod 32 = 0" by (simp add: mod_Suc)
  moreover have "(2::u32) ^ Suc 31 = 0" by simp
  ultimately show ?thesis
    using True unfolding next_value_def walk_pow push_bit_pow_u32 by simp
next
  case False
  then have lt: "i mod 32 < 31"
    using mod_less_divisor [of 32 i] by linarith
  then have s: "Suc i mod 32 = Suc (i mod 32)" by (simp add: mod_Suc)
  have "(2::u32) ^ Suc (i mod 32) \<noteq> 0"
    using lt by (simp only: exp_eq_zero_iff) simp
  then show ?thesis
    unfolding next_value_def walk_pow push_bit_pow_u32 s by simp
qed


lemma emit_simps [simp]:
  "heap (emit e w) = heap w" "ram (emit e w) = ram w" "trace (emit e w) = trace w @ [e]"
  by (simp_all add: emit_def)

lemma poke_simps [simp]:
  "heap (poke E a v w) = heap w" "ram (poke E a v w) = store E (ram w) a v"
  "trace (poke E a v w) = trace w @ [Store a v]"
  by (simp_all add: poke_def)

lemma peek_simps [simp]:
  "fst (peek E a w) = load E (ram w) a"
  "heap (snd (peek E a w)) = heap w" "ram (snd (peek E a w)) = ram w"
  "trace (snd (peek E a w)) = trace w @ [Load a (load E (ram w) a)]"
  by (simp_all add: peek_def)

lemma write_walking_run:
  "k \<le> n \<Longrightarrow>
   write_walking E (b + 4 * int n) (b + 4 * int k) (walk k) w =
     (b + 4 * int n, walk n,
      w\<lparr>ram := fill E walk b [k..<n] (ram w), trace := trace w @ stores walk b [k..<n]\<rparr>)"
proof (induction "n - k" arbitrary: k w)
  case 0
  then show ?case
    by (subst write_walking.simps) (simp add: fill_def stores_def)
next
  case (Suc d)
  then have lt: "k < n" and d: "d = n - Suc k" and le: "Suc k \<le> n" by simp_all
  have a: "b + 4 * int k + 4 = b + 4 * int (Suc k)" by simp
  show ?case
    apply (subst write_walking.simps)
    apply (simp only: a next_value_walk Suc.hyps(1) [OF d le])
    using lt apply (simp add: upt_conv_Cons fill_def stores_def poke_def emit_def)
    done
qed

lemma write_inverted_run:
  "k \<le> n \<Longrightarrow>
   write_inverted E (b + 4 * int n) (b + 4 * int k) (walk k) w =
     (b + 4 * int n, walk n,
      w\<lparr>ram := fill E (\<lambda>i. NOT (walk i)) b [k..<n] (ram w),
        trace := trace w @ stores (\<lambda>i. NOT (walk i)) b [k..<n]\<rparr>)"
proof (induction "n - k" arbitrary: k w)
  case 0
  then show ?case
    by (subst write_inverted.simps) (simp add: fill_def stores_def)
next
  case (Suc d)
  then have lt: "k < n" and d: "d = n - Suc k" and le: "Suc k \<le> n" by simp_all
  have a: "b + 4 * int k + 4 = b + 4 * int (Suc k)" by simp
  show ?case
    apply (subst write_inverted.simps)
    apply (simp only: a next_value_walk Suc.hyps(1) [OF d le])
    using lt apply (simp add: upt_conv_Cons fill_def stores_def poke_def emit_def)
    done
qed

lemma read_walking_run:
  "k \<le> n \<Longrightarrow> read_walking (b + 4 * int n) (b + 4 * int k) (walk k) = (b + 4 * int n, walk n)"
proof (induction "n - k" arbitrary: k)
  case 0
  then show ?case
    by (subst read_walking.simps) simp
next
  case (Suc d)
  then have lt: "k < n" and d: "d = n - Suc k" and le: "Suc k \<le> n" by simp_all
  have a: "b + 4 * int k + 4 = b + 4 * int (Suc k)" by simp
  show ?case
    apply (subst read_walking.simps)
    apply (simp only: a next_value_walk Suc.hyps(1) [OF d le])
    using lt apply simp
    done
qed

lemma stop_from_step:
  "k < n \<Longrightarrow> stop_from E m b k n =
     (if load E m (b + 4 * int k) = NOT (walk k) then stop_from E m b (Suc k) n else k)"
  by (simp add: stop_from_def upt_conv_Cons)

lemma stop_from_bounds: "k \<le> n \<Longrightarrow> k \<le> stop_from E m b k n \<and> stop_from E m b k n \<le> n"
proof -
  assume "k \<le> n"
  have "length (takeWhile (\<lambda>i. load E m (b + 4 * int i) = NOT (walk i)) [k..<n]) \<le> length [k..<n]"
    by (rule length_takeWhile_le)
  with \<open>k \<le> n\<close> show ?thesis by (simp add: stop_from_def)
qed

lemma read_inverted_run:
  "k \<le> n \<Longrightarrow>
   read_inverted E (b + 4 * int n) (b + 4 * int k) (walk k) w =
     (b + 4 * int (stop_from E (ram w) b k n), walk (stop_from E (ram w) b k n),
      w\<lparr>trace := trace w @ loads E (ram w) b [k..<min n (Suc (stop_from E (ram w) b k n))]\<rparr>)"
proof (induction "n - k" arbitrary: k w)
  case 0
  then have "k = n" by simp
  then show ?case
    by (subst read_inverted.simps) (simp add: stop_from_def loads_def)
next
  case (Suc d)
  then have lt: "k < n" and d: "d = n - Suc k" and le: "Suc k \<le> n" by simp_all
  have a: "b + 4 * int k + 4 = b + 4 * int (Suc k)" by simp
  show ?case
  proof (cases "load E (ram w) (b + 4 * int k) = NOT (walk k)")
    case True
    have sb: "Suc k \<le> stop_from E (ram w) b (Suc k) n"
      using stop_from_bounds [OF le, where E = E and m = "ram w" and b = b] by simp
    have l: "[k..<min n (Suc (stop_from E (ram w) b (Suc k) n))]
             = k # [Suc k..<min n (Suc (stop_from E (ram w) b (Suc k) n))]"
      using lt sb by (simp add: upt_conv_Cons)
    show ?thesis
      apply (subst read_inverted.simps)
      using lt True
      apply (simp add: peek_def stop_from_step [OF lt] a next_value_walk
          Suc.hyps(1) [OF d le] del: of_nat_Suc)
      apply (simp add: l loads_def emit_def)
      done
  next
    case False
    show ?thesis
      apply (subst read_inverted.simps)
      using lt False
      apply (simp add: peek_def stop_from_step [OF lt] loads_def emit_def)
      done
  qed
qed

lemma walk_0: "walk 0 = 1"
  by (simp add: walk_def)

lemma ram_limit_eq: "ram_limit pMem sz = uint pMem + 4 * int (word_count sz)"
  by (simp add: ram_limit_def word_count_def zdiv_int)

lemma write_walking_all:
  "write_walking E (b + 4 * int n) b 1 w =
     (b + 4 * int n, walk n,
      w\<lparr>ram := fill E walk b [0..<n] (ram w), trace := trace w @ stores walk b [0..<n]\<rparr>)"
  using write_walking_run [of 0 n E b w] by (simp add: walk_0)

lemma write_inverted_all:
  "write_inverted E (b + 4 * int n) b 1 w =
     (b + 4 * int n, walk n,
      w\<lparr>ram := fill E (\<lambda>i. NOT (walk i)) b [0..<n] (ram w),
        trace := trace w @ stores (\<lambda>i. NOT (walk i)) b [0..<n]\<rparr>)"
  using write_inverted_run [of 0 n E b w] by (simp add: walk_0)

lemma read_walking_all: "read_walking (b + 4 * int n) b 1 = (b + 4 * int n, walk n)"
  using read_walking_run [of 0 n b] by (simp add: walk_0)

lemma read_inverted_all:
  "read_inverted E (b + 4 * int n) b 1 w =
     (b + 4 * int (stop_index E (ram w) b n), walk (stop_index E (ram w) b n),
      w\<lparr>trace := trace w @ loads E (ram w) b [0..<min n (Suc (stop_index E (ram w) b n))]\<rparr>)"
  using read_inverted_run [of 0 n E b w] by (simp add: walk_0 stop_index_def)

lemma stop_index_le: "stop_index E m b n \<le> n"
  using stop_from_bounds [of 0 n E m b] by (simp add: stop_index_def)

lemma checkRam_run_eq:
  assumes "pMem \<noteq> 0"
  shows "checkRam_run E pMem sz w =
     (uint pMem + 4 * int (stop_index E (tested_ram E (uint pMem) (word_count sz) (ram w))
                              (uint pMem) (word_count sz)),
      w\<lparr>ram := tested_ram E (uint pMem) (word_count sz) (ram w),
        trace := trace w @ checkRam_events E pMem sz (ram w)\<rparr>)"
  using assms stop_index_le [of E "tested_ram E (uint pMem) (word_count sz) (ram w)" "uint pMem" "word_count sz"]
  by (simp add: checkRam_run_def ram_limit_eq write_walking_all read_walking_all
      write_inverted_all read_inverted_all checkRam_events_def tested_ram_def Let_def
      peek_def emit_def)








lemma checkRam_eq:
  "pMem \<noteq> 0 \<Longrightarrow> checkRam E pMem sz w =
     w\<lparr>ram := tested_ram E (uint pMem) (word_count sz) (ram w),
       trace := trace w @ checkRam_events E pMem sz (ram w)\<rparr>"
  by (simp add: checkRam_def checkRam_run_eq)

lemma checkRam_null: "checkRam E 0 sz w = w"
  by (simp add: checkRam_def checkRam_run_def)



lemma printed_stores [simp]: "printed (stores f b js) = []"
  by (induction js) (simp_all add: printed_def stores_def is_print_def)

lemma printed_loads [simp]: "printed (loads E m b js) = []"
  by (induction js) (simp_all add: printed_def loads_def is_print_def)

lemma printed_append [simp]: "printed (xs @ ys) = printed xs @ printed ys"
  by (simp add: printed_def)

lemma printed_Nil [simp]: "printed [] = []"
  by (simp add: printed_def)



lemma byte_written_append [simp]:
  "byte_written (xs @ ys) x \<longleftrightarrow> byte_written xs x \<or> byte_written ys x"
  by (simp add: byte_written_def list_ex_iff) blast


lemma byte_written_Nil [simp]: "\<not> byte_written [] x"
  by (simp add: byte_written_def)

lemma byte_written_loads [simp]: "\<not> byte_written (loads E m b js) x"
  by (simp add: byte_written_def loads_def list_ex_iff writes_byte_def)




section \<open>Claims about \<open>checkRam\<close>\<close>





text \<open>
  C6, as amended. With a null start address \<open>checkRam\<close> changes nothing: no store, no
  load, no output. With a non-null start address and size zero it stores and loads
  nothing and prints no failure, but it still prints the line announcing the check.
\<close>

theorem checkRam_null_or_empty:
  "checkRam E 0 sz w = w \<and>
   (pMem \<noteq> 0 \<longrightarrow> checkRam E pMem 0 w = emit (PrintChecking pMem pMem) w)"
  by (simp add: checkRam_null checkRam_eq checkRam_events_def word_count_def stores_def
      loads_def tested_ram_def fill_def stop_index_def stop_from_def emit_def)

theorem checkRam_null_or_empty_witness:
  "checkRam (bench 64) 0 64 world0 = world0 \<and>
   (0x20000000 :: u32) \<noteq> 0 \<and>
   checkRam (bench 64) 0x20000000 0 world0 = emit (PrintChecking 0x20000000 0x20000000) world0"
  using checkRam_null_or_empty [of "bench 64" 64 world0 "0x20000000"] by simp

text \<open>
  C6 as stated fails: for a non-null start address and size zero the announcing line is
  printed.
\<close>

theorem checkRam_zero_size_prints: 
  "trace (checkRam (bench 64) 0x20000000 0 world0) = [PrintChecking 0x20000000 0x20000000]
   \<and> trace world0 = []"
  by code_simp







section \<open>\<open>mallocLargestSize\<close>: the backoff\<close>

lemma call_malloc_simps [simp]:
  "ram (snd (call_malloc E n w)) = ram w"
  "trace (snd (call_malloc E n w)) = trace w @ [Malloc n (fst (call_malloc E n w))]"
  by (simp_all add: call_malloc_def split: prod.splits)

lemma malloc_loop_nonnull: "pMem \<noteq> 0 \<Longrightarrow> malloc_loop E pMem m w = (pMem, m, w)"
  by (subst malloc_loop.simps) simp

lemma malloc_loop_run:
  "malloc_loop E 0 m w = (p, m', w') \<Longrightarrow>
   \<exists>k. trace w' = trace w @ map (\<lambda>j. Malloc (word_of_int (m - 4 * int j)) 0) [0..<k]
                   @ (if p = 0 then [] else [Malloc (word_of_int m') p])
     \<and> m' = m - 4 * int k \<and> ram w' = ram w
     \<and> (p \<noteq> 0 \<longrightarrow> 0 < m') \<and> (p = 0 \<longrightarrow> m' \<le> 0) \<and> (0 < k \<longrightarrow> - 4 < m') \<and> (m \<le> 0 \<longrightarrow> k = 0)"
proof (induction "nat m" arbitrary: m w rule: less_induct)
  case less
  show ?case
  proof (cases "0 < m")
    case False
    then have "malloc_loop E 0 m w = (0, m, w)"
      by (subst malloc_loop.simps) simp
    with less.prems have "p = 0" "m' = m" "w' = w" by simp_all
    with False show ?thesis by (intro exI [of _ 0]) simp
  next
    case True
    obtain q w1 where c: "call_malloc E (word_of_int m) w = (q, w1)"
      by (cases "call_malloc E (word_of_int m) w")
    have t1: "trace w1 = trace w @ [Malloc (word_of_int m) q]" and r1: "ram w1 = ram w"
      using call_malloc_simps [of E "word_of_int m" w] c by simp_all
    have unf: "malloc_loop E 0 m w = malloc_loop E q (if q = 0 then m - 4 else m) w1"
      using True c by (subst malloc_loop.simps) simp
    show ?thesis
    proof (cases "q = 0")
      case False
      then have "malloc_loop E 0 m w = (q, m, w1)"
        using unf by (simp add: malloc_loop_nonnull)
      with less.prems have "p = q" "m' = m" "w' = w1" by simp_all
      with False True t1 r1 show ?thesis by (intro exI [of _ 0]) simp
    next
      case q0: True
      then have rec: "malloc_loop E 0 (m - 4) w1 = (p, m', w')"
        using unf less.prems by simp
      have "nat (m - 4) < nat m" using True by simp
      from less.hyps [OF this rec] obtain k where
        k: "trace w' = trace w1 @ map (\<lambda>j. Malloc (word_of_int (m - 4 - 4 * int j)) 0) [0..<k]
                   @ (if p = 0 then [] else [Malloc (word_of_int m') p])"
          "m' = m - 4 - 4 * int k" "ram w' = ram w1"
          "p \<noteq> 0 \<longrightarrow> 0 < m'" "p = 0 \<longrightarrow> m' \<le> 0" "0 < k \<longrightarrow> - 4 < m'" "m - 4 \<le> 0 \<longrightarrow> k = 0"
        by blast
      have "map (\<lambda>j. Malloc (word_of_int (m - 4 * int j)) 0) [0..<Suc k]
            = Malloc (word_of_int m) 0 # map (\<lambda>j. Malloc (word_of_int (m - 4 - 4 * int j)) 0) [0..<k]"
        by (simp add: map_upt_Suc del: upt_Suc)
      then have "trace w' = trace w @ map (\<lambda>j. Malloc (word_of_int (m - 4 * int j)) 0) [0..<Suc k]
                   @ (if p = 0 then [] else [Malloc (word_of_int m') p])"
        using k(1) t1 q0 by simp
      moreover have "m' = m - 4 * int (Suc k)" using k(2) by simp
      moreover have "- 4 < m'" using k(2,6,7) True by (cases "k = 0") auto
      ultimately show ?thesis
        using k(3,4,5) r1 True by (intro exI [of _ "Suc k"]) simp
    qed
  qed
qed

lemma sint_pos_eq_uint: "0 < sint (n :: u32) \<Longrightarrow> sint n = uint n"
proof -
  assume "0 < sint n"
  moreover have "sint n < 2 ^ 31" using sint_lt [of n] by simp
  ultimately have "take_bit 32 (sint n) = sint n"
    by (simp add: take_bit_int_eq_self)
  then show ?thesis using uint_sint [of n] by simp
qed

lemma uint_small: "0 \<le> x \<Longrightarrow> x < 2 ^ 31 \<Longrightarrow> uint (word_of_int x :: u32) = x"
  by (simp add: uint_word_of_int)

lemma mallocLargestSize_run:
  assumes "mallocLargestSize E (Some n) w = (p, sz, w')"
  shows "\<exists>k actual. sz = Some actual \<and> ram w' = ram w \<and>
     trace w' = trace w @ map (\<lambda>j. Malloc (n - 4 * word_of_nat j) 0) [0..<k]
                  @ (if p = 0 then [] else [Malloc actual p]) \<and>
     (p \<noteq> 0 \<longrightarrow> 0 < sint n \<and> 0 < uint actual \<and> uint actual = uint n - 4 * int k) \<and>
     (p = 0 \<longrightarrow> actual = 0 \<and> (if 0 < sint n then uint n \<le> 4 * int k \<and> 4 * int k < uint n + 4
                              else k = 0))"
proof -
  obtain m' where run: "malloc_loop E 0 (sint n) w = (p, m', w')"
    and sz: "sz = Some (word_of_int (if m' < 0 then 0 else m'))"
    using assms by (auto simp: mallocLargestSize_def split: prod.splits)
  from malloc_loop_run [OF run] obtain k where
    k: "trace w' = trace w @ map (\<lambda>j. Malloc (word_of_int (sint n - 4 * int j)) 0) [0..<k]
                   @ (if p = 0 then [] else [Malloc (word_of_int m') p])"
       "m' = sint n - 4 * int k" "ram w' = ram w"
       "p \<noteq> 0 \<longrightarrow> 0 < m'" "p = 0 \<longrightarrow> m' \<le> 0" "0 < k \<longrightarrow> - 4 < m'" "sint n \<le> 0 \<longrightarrow> k = 0"
    by blast
  let ?actual = "word_of_int (if m' < 0 then 0 else m') :: u32"
  have ev: "(\<lambda>j. Malloc (word_of_int (sint n - 4 * int j)) 0) = (\<lambda>j. Malloc (n - 4 * word_of_nat j) 0)"
    by (rule ext) simp
  have tr: "trace w' = trace w @ map (\<lambda>j. Malloc (n - 4 * word_of_nat j) 0) [0..<k]
                  @ (if p = 0 then [] else [Malloc ?actual p])"
    using k(1,4) unfolding ev by auto
  have ok: "p \<noteq> 0 \<longrightarrow> 0 < sint n \<and> 0 < uint ?actual \<and> uint ?actual = uint n - 4 * int k"
  proof
    assume "p \<noteq> 0"
    then have pos: "0 < m'" using k(4) by simp
    then have sn: "0 < sint n" using k(2) by simp
    then have eq: "sint n = uint n" by (rule sint_pos_eq_uint)
    have "m' < 2 ^ 31" using k(2) sint_lt [of n] by simp
    then have "uint ?actual = m'" using pos by (simp add: uint_small)
    then show "0 < sint n \<and> 0 < uint ?actual \<and> uint ?actual = uint n - 4 * int k"
      using pos k(2) eq sn by simp
  qed
  have fail: "p = 0 \<longrightarrow> ?actual = 0 \<and>
      (if 0 < sint n then uint n \<le> 4 * int k \<and> 4 * int k < uint n + 4 else k = 0)"
  proof
    assume "p = 0"
    then have le: "m' \<le> 0" using k(5) by simp
    then have a0: "?actual = 0" by (cases "m' < 0") simp_all
    show "?actual = 0 \<and>
      (if 0 < sint n then uint n \<le> 4 * int k \<and> 4 * int k < uint n + 4 else k = 0)"
    proof (cases "0 < sint n")
      case True
      then have "0 < k" using le k(2) by (cases k) simp_all
      then have "- 4 < m'" using k(6) by simp
      then show ?thesis
        using a0 True le k(2) sint_pos_eq_uint [OF True] by simp
    next
      case False
      then show ?thesis using a0 k(7) by simp
    qed
  qed
  show ?thesis
    using sz k(3) tr ok fail by blast
qed

text \<open>
  C3, as amended. A call of \<open>mallocLargestSize\<close> with requested size \<open>n\<close> makes \<open>k\<close> failed
  attempts, at the sizes \<open>n\<close>, \<open>n - 4\<close>, \<open>n - 8\<close> and so on, and then either succeeds or
  gives up. It succeeds only for a size that is positive as \<open>int32_t\<close>, that is from 1 to
  \<open>2^31 - 1\<close>: the block is then non-null, it is the result of the last call of \<open>malloc\<close>,
  made with exactly the returned size, and that size is positive and is \<open>n - 4 * k\<close>, at
  most the requested size and a multiple of the word size below it. A null block comes
  with size 0 after every attempt has failed: for a size that is positive as \<open>int32_t\<close>
  the attempts went down to the smallest step (the last one asked for at most 4 bytes);
  for any other size, zero or \<open>2^31\<close> and more, no attempt is made at all.
\<close>

theorem mallocLargestSize_backoff:
  assumes "mallocLargestSize E (Some n) w = (p, sz, w')"
  shows "\<exists>k actual. sz = Some actual \<and> ram w' = ram w \<and>
     trace w' = trace w @ map (\<lambda>j. Malloc (n - 4 * word_of_nat j) 0) [0..<k]
                  @ (if p = 0 then [] else [Malloc actual p]) \<and>
     (p \<noteq> 0 \<longrightarrow> 0 < sint n \<and> 0 < uint actual \<and> uint actual = uint n - 4 * int k) \<and>
     (p = 0 \<longrightarrow> actual = 0 \<and> (if 0 < sint n then uint n \<le> 4 * int k \<and> 4 * int k < uint n + 4
                              else k = 0))"
  using assms by (rule mallocLargestSize_run)

theorem mallocLargestSize_backoff_witness:
  "fst (mallocLargestSize (bench 8) (Some 20) world0) = 0x20000000 \<and>
   fst (snd (mallocLargestSize (bench 8) (Some 20) world0)) = Some 8 \<and>
   trace (snd (snd (mallocLargestSize (bench 8) (Some 20) world0)))
     = [Malloc 20 0, Malloc 16 0, Malloc 12 0, Malloc 8 0x20000000] \<and>
   (\<exists>k actual. Some (8 :: u32) = Some actual \<and>
      [Malloc 20 0, Malloc 16 0, Malloc 12 0, Malloc 8 0x20000000]
        = map (\<lambda>j. Malloc (20 - 4 * word_of_nat j) 0) [0..<k] @ [Malloc actual 0x20000000] \<and>
      0 < sint (20 :: u32) \<and> 0 < uint actual \<and> uint actual = 20 - 4 * int k) \<and>
   fst (mallocLargestSize (bench 0) (Some 12) world0) = 0 \<and>
   fst (snd (mallocLargestSize (bench 0) (Some 12) world0)) = Some 0 \<and>
   trace (snd (snd (mallocLargestSize (bench 0) (Some 12) world0)))
     = [Malloc 12 0, Malloc 8 0, Malloc 4 0] \<and>
   (\<exists>k. [Malloc 12 0, Malloc 8 0, Malloc 4 0] = map (\<lambda>j. Malloc (12 - 4 * word_of_nat j) 0) [0..<k]
      \<and> 12 \<le> 4 * int k \<and> 4 * int k < 16) \<and>
   fst (mallocLargestSize (bench 8) (Some 0) world0) = 0 \<and>
   fst (snd (mallocLargestSize (bench 8) (Some 0) world0)) = Some 0 \<and>
   trace (snd (snd (mallocLargestSize (bench 8) (Some 0) world0))) = []"
proof -
  let ?r = "mallocLargestSize (bench 8) (Some 20) world0"
  let ?s = "mallocLargestSize (bench 0) (Some 12) world0"
  have a: "fst ?r = 0x20000000" "fst (snd ?r) = Some 8"
    "trace (snd (snd ?r)) = [Malloc 20 0, Malloc 16 0, Malloc 12 0, Malloc 8 0x20000000]"
    by code_simp+
  have b: "fst ?s = 0" "fst (snd ?s) = Some 0"
    "trace (snd (snd ?s)) = [Malloc 12 0, Malloc 8 0, Malloc 4 0]"
    by code_simp+
  let ?z = "mallocLargestSize (bench 8) (Some 0) world0"
  have c: "fst ?z = 0" by code_simp
  have t0: "trace world0 = []" by (simp add: world0_def)
  have ra: "?r = (fst ?r, fst (snd ?r), snd (snd ?r))" by simp
  have rb: "?s = (fst ?s, fst (snd ?s), snd (snd ?s))" by simp
  have rc: "?z = (fst ?z, fst (snd ?z), snd (snd ?z))" by simp
  have z: "fst (snd ?z) = Some 0 \<and> trace (snd (snd ?z)) = []"
    using mallocLargestSize_backoff [OF rc] unfolding c t0 by auto
  show ?thesis
    using mallocLargestSize_backoff [OF ra] mallocLargestSize_backoff [OF rb] z c
    unfolding a b t0 by simp
qed

text \<open>
  C3 as stated fails for a positive \<open>size_t\<close> that is negative as \<open>int32_t\<close>: with an
  allocator that grants a request of \<open>2^31\<close> bytes, \<open>mallocLargestSize\<close> asked for \<open>2^31\<close>
  bytes returns a null block and size 0 without calling \<open>malloc\<close>.
\<close>

theorem mallocLargestSize_gives_up_on_huge_size:
  "fst (malloc (bench 0x80000000) (heap world0) 0x80000000) = 0x20000000 \<and>
   fst (mallocLargestSize (bench 0x80000000) (Some 0x80000000) world0) = 0 \<and>
   fst (snd (mallocLargestSize (bench 0x80000000) (Some 0x80000000) world0)) = Some 0 \<and>
   trace (snd (snd (mallocLargestSize (bench 0x80000000) (Some 0x80000000) world0))) = []"
  by code_simp

section \<open>The loops of \<open>checkHeapSize\<close>\<close>

lemma mallocLargestSize_Some:
  "\<exists>p actual w'. mallocLargestSize E (Some n) w = (p, Some actual, w')"
  by (simp add: mallocLargestSize_def split: prod.splits)

lemma peekPtr_eq:
  "peekPtr E a w = (load E (ram w) a, emit (LoadPtr a (load E (ram w) a)) w)"
  by (simp add: peekPtr_def)

lemma pokePtr_simps [simp]:
  "heap (pokePtr E a v w) = heap w" "ram (pokePtr E a v w) = store E (ram w) a v"
  "trace (pokePtr E a v w) = trace w @ [StorePtr a v]"
  by (simp_all add: pokePtr_def)

lemma chain_loop_rule:
  assumes init: "I pp later tot w"
    and succ: "\<And>pp later tot w p actual w1 r.
        I pp later tot w \<Longrightarrow> pp < slot_limit pF f \<Longrightarrow> load E (ram w) pp \<noteq> 0 \<Longrightarrow> later \<noteq> 0 \<Longrightarrow>
        mallocLargestSize E (Some later) (emit (LoadPtr pp (load E (ram w) pp)) w) = (p, Some actual, w1) \<Longrightarrow>
        r = load E (store E (ram w1) pp p) pp \<Longrightarrow> r \<noteq> 0 \<Longrightarrow>
        I (pp + 4) SYSTEM_RAM_SIZE_BYTES (tot + actual)
          (checkRam E r actual (emit (LoadPtr pp r) (emit (LoadPtr pp r) (pokePtr E pp p w1))))"
    and fail: "\<And>pp later tot w p actual w1.
        I pp later tot w \<Longrightarrow> pp < slot_limit pF f \<Longrightarrow> load E (ram w) pp \<noteq> 0 \<Longrightarrow> later \<noteq> 0 \<Longrightarrow>
        mallocLargestSize E (Some later) (emit (LoadPtr pp (load E (ram w) pp)) w) = (p, Some actual, w1) \<Longrightarrow>
        load E (store E (ram w1) pp p) pp = 0 \<Longrightarrow>
        I pp actual tot (emit (LoadPtr pp 0) (pokePtr E pp p w1))"
    and leave: "\<And>pp later tot w.
        I pp later tot w \<Longrightarrow> \<not> (pp < slot_limit pF f \<and> load E (ram w) pp \<noteq> 0 \<and> later \<noteq> 0) \<Longrightarrow>
        Q (pp, later, tot,
           if pp < slot_limit pF f then emit (LoadPtr pp (load E (ram w) pp)) w else w)"
  shows "Q (chain_loop E pF f pp later tot w)"
  using init
proof (induction "if pp < slot_limit pF f
           then 2 * nat (slot_limit pF f - pp)
                + (if load E (ram w) pp \<noteq> 0 \<and> later \<noteq> 0 then 1 else 0 :: nat)
           else 0" arbitrary: pp later tot w rule: less_induct)
  case less
  let ?g = "load E (ram w) pp"
  let ?w0 = "emit (LoadPtr pp ?g) w"
  show ?case
  proof (cases "pp < slot_limit pF f \<and> ?g \<noteq> 0 \<and> later \<noteq> 0")
    case False
    have "chain_loop E pF f pp later tot w =
        (pp, later, tot, if pp < slot_limit pF f then ?w0 else w)"
      using False by (subst chain_loop.simps) (auto simp: peekPtr_eq)
    then show ?thesis using leave [OF less.prems False] by simp
  next
    case True
    obtain p actual w1 where m: "mallocLargestSize E (Some later) ?w0 = (p, Some actual, w1)"
      using mallocLargestSize_Some by blast
    let ?r = "load E (store E (ram w1) pp p) pp"
    let ?w2 = "emit (LoadPtr pp ?r) (pokePtr E pp p w1)"
    show ?thesis
    proof (cases "?r = 0")
      case r0: True
      have unf: "chain_loop E pF f pp later tot w = chain_loop E pF f pp actual tot ?w2"
        using True m r0 by (subst chain_loop.simps) (simp add: peekPtr_eq)
      have I': "I pp actual tot ?w2"
        using fail [OF less.prems _ _ _ m r0] True r0 by simp
      have dec: "(if pp < slot_limit pF f
           then 2 * nat (slot_limit pF f - pp)
                + (if load E (ram ?w2) pp \<noteq> 0 \<and> actual \<noteq> 0 then 1 else 0 :: nat)
           else 0) < (if pp < slot_limit pF f
           then 2 * nat (slot_limit pF f - pp)
                + (if load E (ram w) pp \<noteq> 0 \<and> later \<noteq> 0 then 1 else 0 :: nat)
           else 0)"
        using True r0 by simp
      show ?thesis
        unfolding unf by (rule less.hyps [OF dec I'])
    next
      case r1: False
      let ?w3 = "emit (LoadPtr pp ?r) ?w2"
      let ?w4 = "checkRam E ?r actual ?w3"
      have unf: "chain_loop E pF f pp later tot w =
           chain_loop E pF f (pp + 4) SYSTEM_RAM_SIZE_BYTES (tot + actual) ?w4"
        using True m r1 by (subst chain_loop.simps) (simp add: peekPtr_eq)
      have I': "I (pp + 4) SYSTEM_RAM_SIZE_BYTES (tot + actual) ?w4"
        using succ [OF less.prems _ _ _ m refl r1] True by simp
      have dec: "(if pp + 4 < slot_limit pF f
           then 2 * nat (slot_limit pF f - (pp + 4))
                + (if load E (ram ?w4) (pp + 4) \<noteq> 0 \<and> SYSTEM_RAM_SIZE_BYTES \<noteq> 0 then 1 else 0 :: nat)
           else 0) < (if pp < slot_limit pF f
           then 2 * nat (slot_limit pF f - pp)
                + (if load E (ram w) pp \<noteq> 0 \<and> later \<noteq> 0 then 1 else 0 :: nat)
           else 0)"
        using True by (auto; linarith)
      show ?thesis
        unfolding unf by (rule less.hyps [OF dec I'])
    qed
  qed
qed

lemma call_free_simps [simp]:
  "ram (call_free E p w) = ram w" "trace (call_free E p w) = trace w @ [Free p]"
  by (simp_all add: call_free_def)

lemma free_loop_below: "pp < uint pF \<Longrightarrow> free_loop E pF pp w = (pp, w)"
  by (subst free_loop.simps) simp

lemma free_loop_run:
  "fst (free_loop E pF (uint pF + 4 * int i) w) = uint pF - 4 \<and>
   ram (snd (free_loop E pF (uint pF + 4 * int i) w)) = ram w \<and>
   trace (snd (free_loop E pF (uint pF + 4 * int i) w)) =
     trace w @ concat (map (\<lambda>j. [LoadPtr (uint pF + 4 * int j) (load E (ram w) (uint pF + 4 * int j)),
                                  Free (load E (ram w) (uint pF + 4 * int j))]) (rev [0..<Suc i]))"
proof (induction i arbitrary: w)
  case 0
  show ?case
    by (subst (1 2 3) free_loop.simps) (simp add: peekPtr_eq free_loop_below)
next
  case (Suc i)
  have a: "uint pF + 4 * int (Suc i) - 4 = uint pF + 4 * int i" by simp
  let ?v = "load E (ram w) (uint pF + 4 * int (Suc i))"
  let ?w' = "call_free E ?v (emit (LoadPtr (uint pF + 4 * int (Suc i)) ?v) w)"
  have unf: "free_loop E pF (uint pF + 4 * int (Suc i)) w = free_loop E pF (uint pF + 4 * int i) ?w'"
    by (subst free_loop.simps) (simp add: peekPtr_eq a del: of_nat_Suc)
  show ?case
    unfolding unf using Suc [of ?w'] by simp
qed

lemma slot_ok_checkRam_events: "list_all (slot_ok b n) (checkRam_events E q sz m)"
  by (simp add: checkRam_events_def Let_def list_all_iff stores_def loads_def slot_ok_def) auto

lemma trace_checkRam:
  "trace (checkRam E q sz w) = trace w @ (if q = 0 then [] else checkRam_events E q sz (ram w))"
  by (simp add: checkRam_null checkRam_eq)

lemma mallocLargestSize_trace:
  "mallocLargestSize E (Some n) w = (p, sz, w') \<Longrightarrow>
   \<exists>evs. trace w' = trace w @ evs \<and> ram w' = ram w \<and> list_all (slot_ok b k) evs"
proof -
  assume "mallocLargestSize E (Some n) w = (p, sz, w')"
  from mallocLargestSize_run [OF this] obtain j actual where
    "trace w' = trace w @ map (\<lambda>j. Malloc (n - 4 * word_of_nat j) 0) [0..<j]
                  @ (if p = 0 then [] else [Malloc actual p])" "ram w' = ram w"
    by blast
  moreover have "list_all (slot_ok b k) (map (\<lambda>j. Malloc (n - 4 * word_of_nat j) 0) [0..<j]
                  @ (if p = 0 then [] else [Malloc actual p]))"
    by (simp add: list_all_iff slot_ok_def)
  ultimately show ?thesis by blast
qed

lemma slot_ok_index:
  "slot_ok b n (StorePtr (b + 4 * int i) v) = (i < n)"
  "slot_ok b n (LoadPtr (b + 4 * int i) v) = (i \<le> n)"
  by (simp_all add: slot_ok_def)

lemma chain_loop_slots:
  fixes E :: "('h, 'm) env" and w :: "('h, 'm) world"
  assumes "i \<le> word_count f"
  shows "case chain_loop E pF f (uint pF + 4 * int i) later tot w of
     (c, l, t, w') \<Rightarrow> \<exists>i' evs. c = uint pF + 4 * int i' \<and> i' \<le> word_count f \<and>
        trace w' = trace w @ evs \<and> list_all (slot_ok (uint pF) (word_count f)) evs"
proof (rule chain_loop_rule [where I = "\<lambda>pp later tot w'. \<exists>i' evs. pp = uint pF + 4 * int i' \<and> i' \<le> word_count f \<and>
        trace w' = trace w @ evs \<and> list_all (slot_ok (uint pF) (word_count f)) evs"])
  show "\<exists>i' evs. uint pF + 4 * int i = uint pF + 4 * int i' \<and> i' \<le> word_count f \<and>
        trace w = trace w @ evs \<and> list_all (slot_ok (uint pF) (word_count f)) evs"
    using assms by (intro exI [of _ i] exI [of _ "[]"]) simp
next
  fix pp later tot and w0 :: "('h, 'm) world" and p actual w1 r
  assume I: "\<exists>i' evs. pp = uint pF + 4 * int i' \<and> i' \<le> word_count f \<and>
        trace w0 = trace w @ evs \<and> list_all (slot_ok (uint pF) (word_count f)) evs"
    and lt: "pp < slot_limit pF f"
    and m: "mallocLargestSize E (Some later) (emit (LoadPtr pp (load E (ram w0) pp)) w0) = (p, Some actual, w1)"
  from I obtain i' evs where i': "pp = uint pF + 4 * int i'" "i' \<le> word_count f"
    "trace w0 = trace w @ evs" "list_all (slot_ok (uint pF) (word_count f)) evs" by blast
  have lim: "slot_limit pF f = uint pF + 4 * int (word_count f)"
    using ram_limit_eq [of pF f] by (simp add: slot_limit_def ram_limit_def)
  have less: "i' < word_count f" using lt i'(1) lim by simp
  from mallocLargestSize_trace [OF m] obtain mevs where
    mevs: "trace w1 = trace w0 @ [LoadPtr pp (load E (ram w0) pp)] @ mevs"
      "list_all (slot_ok (uint pF) (word_count f)) mevs"
    by auto
  show "\<exists>i'' evs. pp + 4 = uint pF + 4 * int i'' \<and> i'' \<le> word_count f \<and>
        trace (checkRam E r actual (emit (LoadPtr pp r) (emit (LoadPtr pp r) (pokePtr E pp p w1))))
          = trace w @ evs \<and> list_all (slot_ok (uint pF) (word_count f)) evs"
    apply (rule exI [of _ "Suc i'"])
    using i' less mevs
    apply (simp add: trace_checkRam slot_ok_index slot_ok_checkRam_events)
    done
  show "\<exists>i'' evs. pp = uint pF + 4 * int i'' \<and> i'' \<le> word_count f \<and>
        trace (emit (LoadPtr pp 0) (pokePtr E pp p w1)) = trace w @ evs \<and>
        list_all (slot_ok (uint pF) (word_count f)) evs"
    apply (rule exI [of _ "i'"])
    using i' less mevs
    apply (simp add: slot_ok_index)
    done
next
  fix pp later tot and w0 :: "('h, 'm) world"
  assume I: "\<exists>i' evs. pp = uint pF + 4 * int i' \<and> i' \<le> word_count f \<and>
        trace w0 = trace w @ evs \<and> list_all (slot_ok (uint pF) (word_count f)) evs"
  then obtain i' evs where i': "pp = uint pF + 4 * int i'" "i' \<le> word_count f"
    "trace w0 = trace w @ evs" "list_all (slot_ok (uint pF) (word_count f)) evs" by blast
  show "case (pp, later, tot, if pp < slot_limit pF f then emit (LoadPtr pp (load E (ram w0) pp)) w0 else w0) of
     (c, l, t, w') \<Rightarrow> \<exists>i' evs. c = uint pF + 4 * int i' \<and> i' \<le> word_count f \<and>
        trace w' = trace w @ evs \<and> list_all (slot_ok (uint pF) (word_count f)) evs"
    apply (simp only: prod.case)
    apply (rule exI [of _ "i'"])
    using i'
    apply (simp add: slot_ok_index)
    done
qed

lemma slot_ok_teardown:
  "i \<le> n \<Longrightarrow>
   list_all (slot_ok b n)
     (concat (map (\<lambda>j. [LoadPtr (b + 4 * int j) (g j), Free (g j)]) (rev [0..<Suc i])))"
  by (induction i) (simp_all add: slot_ok_index, simp_all add: slot_ok_def)




section \<open>Claims about \<open>checkHeapSize\<close>\<close>

text \<open>
  C5. Let \<open>checkHeapSize\<close> obtain the first block \<open>pFirst\<close> of \<open>first\<close> bytes. Every store
  through the slot cursor in the run is at a slot of index below \<open>first div 4\<close>, and every
  load through it, in the chaining loop and in the teardown walk, is at a slot of index at
  most \<open>first div 4\<close>. Every value the cursor takes is loaded from, except the last one
  of the teardown, one slot below the block. The chaining loop, from the start of the
  block, ends with its cursor between the start of the block and the end of the slot
  array, whatever the memory and the allocator do.
\<close>

theorem slot_cursor_stays_in_first_block:
  fixes E :: "('h, 'm) env" and w :: "('h, 'm) world"
  assumes "mallocLargestSize E (Some sizeBytes) w = (pFirst, Some first, w1)"
  shows "(\<exists>evs. trace (snd (checkHeapSize E sizeBytes w)) = trace w @ evs \<and>
            list_all (slot_ok (uint pFirst) (word_count first)) evs) \<and>
         (\<forall>later tot (w' :: ('h, 'm) world).
            uint pFirst \<le> fst (chain_loop E pFirst first (uint pFirst) later tot w') \<and>
            fst (chain_loop E pFirst first (uint pFirst) later tot w') \<le> slot_limit pFirst first)"
proof
  let ?b = "uint pFirst" and ?n = "word_count first"
  from mallocLargestSize_trace [OF assms] obtain mevs where
    mevs: "trace w1 = trace w @ mevs" "list_all (slot_ok ?b ?n) mevs" by blast
  show "\<exists>evs. trace (snd (checkHeapSize E sizeBytes w)) = trace w @ evs \<and>
            list_all (slot_ok ?b ?n) evs"
  proof (cases "pFirst = 0")
    case True
    then show ?thesis using assms mevs by (simp add: checkHeapSize_def)
  next
    case False
    let ?w2 = "checkRam E pFirst first w1"
    obtain c l t w3 where ch: "chain_loop E pFirst first ?b SYSTEM_RAM_SIZE_BYTES (0 + first) ?w2 = (c, l, t, w3)"
      by (cases "chain_loop E pFirst first ?b SYSTEM_RAM_SIZE_BYTES (0 + first) ?w2")
    from chain_loop_slots [where i = 0 and f = first and E = E and pF = pFirst
        and later = SYSTEM_RAM_SIZE_BYTES and tot = "0 + first" and w = ?w2] ch
    obtain i' cevs where c: "c = ?b + 4 * int i'" "i' \<le> ?n" "trace w3 = trace ?w2 @ cevs"
      "list_all (slot_ok ?b ?n) cevs" by auto
    have res: "snd (checkHeapSize E sizeBytes w) = call_free E pFirst (snd (free_loop E pFirst c w3))"
      using assms False ch by (simp add: checkHeapSize_def split: prod.splits)
    show ?thesis
      unfolding res c(1)
      using free_loop_run [of E pFirst i' w3] c mevs False
        slot_ok_teardown [OF c(2), of ?b "\<lambda>j. load E (ram w3) (?b + 4 * int j)"]
      by (simp add: trace_checkRam slot_ok_checkRam_events slot_ok_def del: upt_Suc)
  qed
next
  have lim: "slot_limit pFirst first = uint pFirst + 4 * int (word_count first)"
    using ram_limit_eq [of pFirst first] by (simp add: slot_limit_def ram_limit_def)
  show "\<forall>later tot (w' :: ('h, 'm) world).
            uint pFirst \<le> fst (chain_loop E pFirst first (uint pFirst) later tot w') \<and>
            fst (chain_loop E pFirst first (uint pFirst) later tot w') \<le> slot_limit pFirst first"
  proof (intro allI)
    fix later tot and w' :: "('h, 'm) world"
    show "uint pFirst \<le> fst (chain_loop E pFirst first (uint pFirst) later tot w') \<and>
            fst (chain_loop E pFirst first (uint pFirst) later tot w') \<le> slot_limit pFirst first"
      using chain_loop_slots [where i = 0 and f = first and E = E and pF = pFirst
          and later = later and tot = tot and w = w'] lim
      by (auto split: prod.splits)
  qed
qed

theorem slot_cursor_stays_in_first_block_witness:
  "fst (mallocLargestSize (bench 8) (Some 8) world0) = 0x20000000 \<and>
   fst (snd (mallocLargestSize (bench 8) (Some 8) world0)) = Some 8 \<and>
   list_all (slot_ok 0x20000000 2) (trace (snd (checkHeapSize (bench 8) 8 world0))) \<and>
   0x20000000 \<le> fst (chain_loop (bench 8) 0x20000000 8 0x20000000 SYSTEM_RAM_SIZE_BYTES 8 world0) \<and>
   fst (chain_loop (bench 8) 0x20000000 8 0x20000000 SYSTEM_RAM_SIZE_BYTES 8 world0) \<le> 0x20000008"
proof -
  let ?r = "mallocLargestSize (bench 8) (Some 8) world0"
  have a: "fst ?r = 0x20000000" "fst (snd ?r) = Some 8"
    by code_simp+
  have r: "?r = (0x20000000, Some 8, snd (snd ?r))"
    using a by (metis prod.collapse)
  have n: "word_count 8 = 2" by (simp add: word_count_def)
  have l: "slot_limit 0x20000000 8 = 0x20000008" by (simp add: slot_limit_def)
  have t0: "trace world0 = []" by (simp add: world0_def)
  show ?thesis
    using slot_cursor_stays_in_first_block [OF r] a
    unfolding n l t0 by auto
qed

section \<open>The residue of the RAM test in the slot array\<close>













section \<open>The chain of blocks and its teardown\<close>

lemma freed_simps [simp]:
  "freed [] = []" "freed (xs @ ys) = freed xs @ freed ys"
  "freed (Free p # xs) = p # freed xs" "freed (Malloc n p # xs) = freed xs"
  "freed (Store a v # xs) = freed xs" "freed (Load a v # xs) = freed xs"
  "freed (StorePtr a v # xs) = freed xs" "freed (LoadPtr a v # xs) = freed xs"
  "freed (PrintChecking x y # xs) = freed xs" "freed (PrintFailure x y # xs) = freed xs"
  by (simp_all add: freed_def)

lemma allocated_simps [simp]:
  "allocated [] = []" "allocated (xs @ ys) = allocated xs @ allocated ys"
  "allocated (Free p # xs) = allocated xs"
  "allocated (Malloc n p # xs) = (if p = 0 then allocated xs else p # allocated xs)"
  "allocated (Store a v # xs) = allocated xs" "allocated (Load a v # xs) = allocated xs"
  "allocated (StorePtr a v # xs) = allocated xs" "allocated (LoadPtr a v # xs) = allocated xs"
  "allocated (PrintChecking x y # xs) = allocated xs" "allocated (PrintFailure x y # xs) = allocated xs"
  by (simp_all add: allocated_def)

lemma freed_stores [simp]: "freed (stores f b js) = []"
  by (induction js) (simp_all add: stores_def)

lemma freed_loads [simp]: "freed (loads E m b js) = []"
  by (induction js) (simp_all add: loads_def)

lemma allocated_stores [simp]: "allocated (stores f b js) = []"
  by (induction js) (simp_all add: stores_def)

lemma allocated_loads [simp]: "allocated (loads E m b js) = []"
  by (induction js) (simp_all add: loads_def)

lemma checkRam_events_no_calls [simp]:
  "freed (checkRam_events E q sz m) = []" "allocated (checkRam_events E q sz m) = []"
  by (simp_all add: checkRam_events_def Let_def)

lemma failed_mallocs [simp]:
  "freed (map (\<lambda>j. Malloc (g j) 0) js) = []" "allocated (map (\<lambda>j. Malloc (g j) 0) js) = []"
  by (induction js) simp_all















end
